theory Spec2Isabelle
  imports Complex_Main "HOL-Library.Sublist" "HOL-Library.Product_Lexorder" "HOL-Library.Multiset"
begin

section \<open>Strings and character classes\<close>

text \<open>
  A Python \<open>str\<close> is a sequence of code points. The model takes a string to be a list of
  \<^typ>\<open>char\<close>, every character standing for the code point of the same number
  (0 to 255, the Latin-1 range), so that \<open>length\<close> counts what Python's \<open>len\<close> counts.
  The three character classes below are the ones CPython 3 uses on that range:
  \<open>str.isspace\<close> (which \<open>str.strip\<close> removes), the regular expression class \<open>\w\<close>,
  and the mapping of \<open>str.lower\<close>, which is one code point to one code point there.
\<close>

definition isspace :: "char \<Rightarrow> bool" where
  "isspace c = (let n = (of_char c :: nat) in
     (9 \<le> n \<and> n \<le> 13) \<or> (28 \<le> n \<and> n \<le> 32) \<or> n = 133 \<or> n = 160)"

definition is_word_char :: "char \<Rightarrow> bool" where
  "is_word_char c = (let n = (of_char c :: nat) in
     (48 \<le> n \<and> n \<le> 57) \<or> (65 \<le> n \<and> n \<le> 90) \<or> n = 95 \<or> (97 \<le> n \<and> n \<le> 122) \<or>
     n = 170 \<or> n = 178 \<or> n = 179 \<or> n = 181 \<or> n = 185 \<or> n = 186 \<or>
     (188 \<le> n \<and> n \<le> 190) \<or> (192 \<le> n \<and> n \<le> 214) \<or> (216 \<le> n \<and> n \<le> 246) \<or>
     (248 \<le> n \<and> n \<le> 255))"

definition lower_char :: "char \<Rightarrow> char" where
  "lower_char c = (let n = (of_char c :: nat) in
     if (65 \<le> n \<and> n \<le> 90) \<or> (192 \<le> n \<and> n \<le> 214) \<or> (216 \<le> n \<and> n \<le> 222)
     then char_of (n + 32) else c)"

text \<open>\<open>s.lower()\<close>\<close>

definition lower :: "string \<Rightarrow> string" where
  "lower s = map lower_char s"

text \<open>\<open>s.strip()\<close>: leading and trailing whitespace removed.\<close>

definition strip :: "string \<Rightarrow> string" where
  "strip s = rev (dropWhile isspace (rev (dropWhile isspace s)))"

text \<open>\<open>sub in s\<close> on strings: \<open>sub\<close> occurs in \<open>s\<close> as a contiguous block.\<close>

fun contains :: "string \<Rightarrow> string \<Rightarrow> bool" where
  "contains sub [] = (sub = [])"
| "contains sub (c # cs) = (prefix sub (c # cs) \<or> contains sub cs)"

text \<open>
  \<open>re.findall(r"\w+", s)\<close>: the maximal runs of word characters of \<open>s\<close>, from left to
  right.
\<close>

function findall_word :: "string \<Rightarrow> string list" where
  "findall_word [] = []"
| "findall_word (c # cs) =
     (if is_word_char c
      then takeWhile is_word_char (c # cs) # findall_word (dropWhile is_word_char (c # cs))
      else findall_word cs)"
  by pat_completeness auto
termination
  by (relation "measure length") (auto simp: length_dropWhile_le le_imp_less_Suc)

section \<open>The sequence matcher of \<open>difflib\<close>\<close>

text \<open>
  \<open>compute_similarity\<close> calls \<open>difflib.SequenceMatcher(None, a, b).ratio()\<close> of the
  Python standard library (CPython 3.11, \<open>Lib/difflib.py\<close>). The functions below follow
  that file: \<open>isjunk\<close> is \<open>None\<close>, so the set \<open>bjunk\<close> is empty, and \<open>autojunk\<close> has its
  default \<open>True\<close>.
\<close>

text \<open>
  \<open>__chain_b\<close>: the dictionary \<open>b2j\<close> maps every element of \<open>b\<close> to the increasing list
  of the indices where it stands. When \<open>b\<close> has 200 elements or more, an element that
  stands at more than \<open>n // 100 + 1\<close> indices is "popular" and is deleted from \<open>b2j\<close>.
\<close>

definition setdefault_append :: "('a \<rightharpoonup> nat list) \<Rightarrow> nat \<times> 'a \<Rightarrow> ('a \<rightharpoonup> nat list)" where
  "setdefault_append b2j p =
     (case p of (i, elt) \<Rightarrow>
        b2j(elt \<mapsto> (case b2j elt of None \<Rightarrow> [] | Some indices \<Rightarrow> indices) @ [i]))"

definition chain_b :: "'a list \<Rightarrow> ('a \<rightharpoonup> nat list)" where
  "chain_b b =
     (let b2j = foldl setdefault_append Map.empty (enumerate 0 b);
          n = length b
      in if n \<ge> 200
         then (let ntest = n div 100 + 1
               in (\<lambda>elt. case b2j elt of
                     None \<Rightarrow> None
                   | Some idxs \<Rightarrow> if length idxs > ntest then None else Some idxs))
         else b2j)"

text \<open>
  What \<open>__chain_b\<close> builds, in closed form: an element is mapped to the list of its
  indices, unless it is absent from \<open>b\<close> or popular.
\<close>

text \<open>The indices of \<open>elt\<close> in \<open>xs\<close>, counted from \<open>i\<close>.\<close>

fun indices_from :: "nat \<Rightarrow> 'a list \<Rightarrow> 'a \<Rightarrow> nat list" where
  "indices_from i [] elt = []"
| "indices_from i (x # xs) elt =
     (if x = elt then i # indices_from (Suc i) xs elt else indices_from (Suc i) xs elt)"

lemma setdefault_append_apply:
  "setdefault_append m (i, x) elt =
     (if elt = x then Some ((case m x of None \<Rightarrow> [] | Some l \<Rightarrow> l) @ [i]) else m elt)"
  by (simp add: setdefault_append_def)

lemma foldl_setdefault_append:
  "foldl setdefault_append m (enumerate i xs) elt =
     (if indices_from i xs elt = [] then m elt
      else Some ((case m elt of None \<Rightarrow> [] | Some l \<Rightarrow> l) @ indices_from i xs elt))"
proof (induction xs arbitrary: m i)
  case Nil
  then show ?case by simp
next
  case (Cons x xs)
  show ?case
    by (auto simp: Cons.IH setdefault_append_apply split: option.splits)
qed

lemma chain_b_code [code]:
  "chain_b b =
     (\<lambda>elt. let idxs = indices_from 0 b elt
            in if idxs = [] \<or> (length b \<ge> 200 \<and> length idxs > length b div 100 + 1)
               then None else Some idxs)"
  by (rule ext) (simp add: chain_b_def Let_def foldl_setdefault_append)

text \<open>\<open>b2j.get(x, nothing)\<close> with \<open>nothing = []\<close>.\<close>

definition b2j_get :: "('a \<rightharpoonup> nat list) \<Rightarrow> 'a \<Rightarrow> nat list" where
  "b2j_get b2j x = (case b2j x of None \<Rightarrow> [] | Some js \<Rightarrow> js)"

text \<open>
  \<open>j2len.get(j-1, 0)\<close>: the keys of \<open>j2len\<close> are indices of \<open>b\<close>, so the key \<open>-1\<close> (asked
  for when \<open>j = 0\<close>) is never there.
\<close>

definition j2lenget :: "(nat \<rightharpoonup> nat) \<Rightarrow> nat \<Rightarrow> nat" where
  "j2lenget j2len j = (if j = 0 then 0 else (case j2len (j - 1) of None \<Rightarrow> 0 | Some k \<Rightarrow> k))"

text \<open>
  The inner loop of \<open>find_longest_match\<close>, \<open>for j in b2j.get(a[i], nothing)\<close>, on the
  state \<open>(newj2len, besti, bestj, bestsize)\<close>: \<open>continue\<close> below \<open>blo\<close>, \<open>break\<close> from
  \<open>bhi\<close> on. The source's \<open>i-k+1\<close> is written \<open>i + 1 - k\<close> on natural numbers
  (\<open>k \<le> i + 1\<close> there).
\<close>

fun flm_inner ::
  "(nat \<rightharpoonup> nat) \<Rightarrow> nat \<Rightarrow> nat \<Rightarrow> nat \<Rightarrow> nat list \<Rightarrow>
   (nat \<rightharpoonup> nat) \<times> nat \<times> nat \<times> nat \<Rightarrow> (nat \<rightharpoonup> nat) \<times> nat \<times> nat \<times> nat" where
  "flm_inner j2len i blo bhi [] st = st"
| "flm_inner j2len i blo bhi (j # js) (newj2len, besti, bestj, bestsize) =
     (if j < blo then flm_inner j2len i blo bhi js (newj2len, besti, bestj, bestsize)
      else if j \<ge> bhi then (newj2len, besti, bestj, bestsize)
      else (let k = j2lenget j2len j + 1;
                newj2len' = newj2len(j \<mapsto> k)
            in if k > bestsize
               then flm_inner j2len i blo bhi js (newj2len', i + 1 - k, j + 1 - k, k)
               else flm_inner j2len i blo bhi js (newj2len', besti, bestj, bestsize)))"

text \<open>The outer loop, \<open>for i in range(alo, ahi)\<close>, on \<open>(j2len, besti, bestj, bestsize)\<close>.\<close>

fun flm_outer ::
  "'a list \<Rightarrow> ('a \<rightharpoonup> nat list) \<Rightarrow> nat \<Rightarrow> nat \<Rightarrow> nat list \<Rightarrow>
   (nat \<rightharpoonup> nat) \<times> nat \<times> nat \<times> nat \<Rightarrow> (nat \<rightharpoonup> nat) \<times> nat \<times> nat \<times> nat" where
  "flm_outer a b2j blo bhi [] st = st"
| "flm_outer a b2j blo bhi (i # is) (j2len, besti, bestj, bestsize) =
     flm_outer a b2j blo bhi is
       (flm_inner j2len i blo bhi (b2j_get b2j (a ! i)) (Map.empty, besti, bestj, bestsize))"

text \<open>
  The two \<open>while\<close> loops that extend the block to the left and to the right while the
  neighbouring elements are equal (\<open>isbjunk\<close> is false of every element). The two
  loops after them run only on junk elements: with no junk they do nothing.
\<close>

function extend_left :: "'a list \<Rightarrow> 'a list \<Rightarrow> nat \<Rightarrow> nat \<Rightarrow> nat \<times> nat \<times> nat \<Rightarrow> nat \<times> nat \<times> nat" where
  "extend_left a b alo blo (besti, bestj, bestsize) =
     (if besti > alo \<and> bestj > blo \<and> a ! (besti - 1) = b ! (bestj - 1)
      then extend_left a b alo blo (besti - 1, bestj - 1, bestsize + 1)
      else (besti, bestj, bestsize))"
  by pat_completeness auto
termination
  by (relation "measure (\<lambda>(a, b, alo, blo, besti, bestj, bestsize). besti)") auto

declare extend_left.simps [simp del]

function extend_right :: "'a list \<Rightarrow> 'a list \<Rightarrow> nat \<Rightarrow> nat \<Rightarrow> nat \<times> nat \<times> nat \<Rightarrow> nat \<times> nat \<times> nat" where
  "extend_right a b ahi bhi (besti, bestj, bestsize) =
     (if besti + bestsize < ahi \<and> bestj + bestsize < bhi \<and>
         a ! (besti + bestsize) = b ! (bestj + bestsize)
      then extend_right a b ahi bhi (besti, bestj, bestsize + 1)
      else (besti, bestj, bestsize))"
  by pat_completeness auto
termination
  by (relation "measure (\<lambda>(a, b, ahi, bhi, besti, bestj, bestsize). ahi - (besti + bestsize))") auto

declare extend_right.simps [simp del]

definition find_longest_match ::
  "'a list \<Rightarrow> 'a list \<Rightarrow> ('a \<rightharpoonup> nat list) \<Rightarrow> nat \<Rightarrow> nat \<Rightarrow> nat \<Rightarrow> nat \<Rightarrow> nat \<times> nat \<times> nat" where
  "find_longest_match a b b2j alo ahi blo bhi =
     (case flm_outer a b2j blo bhi [alo..<ahi] (Map.empty, alo, blo, 0) of
        (j2len, besti, bestj, bestsize) \<Rightarrow>
          extend_right a b ahi bhi (extend_left a b alo blo (besti, bestj, bestsize)))"

text \<open>
  Bounds on what the two loops keep: after the row of \<open>i\<close> every length in \<open>j2len\<close> is
  positive and reaches back neither before \<open>alo\<close> in \<open>a\<close> nor before \<open>blo\<close> in \<open>b\<close>, and
  the best block lies inside the window. \<open>get_matching_blocks\<close> terminates because of
  them.
\<close>

definition row_ok :: "nat \<Rightarrow> nat \<Rightarrow> nat \<Rightarrow> (nat \<rightharpoonup> nat) \<Rightarrow> bool" where
  "row_ok blo bhi n m = (\<forall>j k. m j = Some k \<longrightarrow> 0 < k \<and> k \<le> n \<and> k + blo \<le> j + 1 \<and> j < bhi)"

definition best_ok :: "nat \<Rightarrow> nat \<Rightarrow> nat \<Rightarrow> nat \<Rightarrow> nat \<times> nat \<times> nat \<Rightarrow> bool" where
  "best_ok alo ahi blo bhi t = (case t of (besti, bestj, bestsize) \<Rightarrow>
     (bestsize = 0 \<and> besti = alo \<and> bestj = blo) \<or>
     (0 < bestsize \<and> alo \<le> besti \<and> besti + bestsize \<le> ahi \<and> blo \<le> bestj \<and> bestj + bestsize \<le> bhi))"

lemma j2lenget_le:
  assumes "row_ok blo bhi n m" "blo \<le> j"
  shows "j2lenget m j \<le> n \<and> j2lenget m j + blo \<le> j"
proof (cases "j = 0")
  case True
  then show ?thesis using assms by (simp add: j2lenget_def)
next
  case False
  show ?thesis
  proof (cases "m (j - 1)")
    case None
    then show ?thesis using False assms by (simp add: j2lenget_def)
  next
    case (Some k)
    with assms(1) have "k \<le> n \<and> k + blo \<le> (j - 1) + 1"
      unfolding row_ok_def by blast
    then show ?thesis using False Some by (simp add: j2lenget_def)
  qed
qed


lemma flm_inner_ok:
  assumes "row_ok blo bhi n j2len" "alo + n \<le> i" "i < ahi"
  shows "row_ok blo bhi (Suc n) newj2len \<Longrightarrow> best_ok alo ahi blo bhi best \<Longrightarrow>
         flm_inner j2len i blo bhi js (newj2len, best) = (m', best') \<Longrightarrow>
         row_ok blo bhi (Suc n) m' \<and> best_ok alo ahi blo bhi best'"
proof (induction js arbitrary: newj2len best)
  case Nil
  then show ?case by simp
next
  case (Cons j js)
  obtain besti bestj bestsize where best: "best = (besti, bestj, bestsize)"
    by (cases best) auto
  show ?case
  proof (cases "j < blo")
    case True
    with Cons best show ?thesis by simp
  next
    case nlt: False
    show ?thesis
    proof (cases "j \<ge> bhi")
      case True
      with nlt Cons best show ?thesis by auto
    next
      case False
      define k where "k = j2lenget j2len j + 1"
      have kb: "0 < k" "k \<le> Suc n" "k + blo \<le> j + 1"
        using j2lenget_le[OF assms(1), of j] nlt by (auto simp: k_def)
      have r': "row_ok blo bhi (Suc n) (newj2len(j \<mapsto> k))"
        using Cons.prems(1) kb False unfolding row_ok_def by auto
      show ?thesis
      proof (cases "k > bestsize")
        case True
        have b': "best_ok alo ahi blo bhi (i + 1 - k, j + 1 - k, k)"
          using kb False assms(2,3) unfolding best_ok_def by auto
        have "flm_inner j2len i blo bhi js (newj2len(j \<mapsto> k), i + 1 - k, j + 1 - k, k) = (m', best')"
          using Cons.prems(3) nlt False True best by (simp add: k_def Let_def)
        from Cons.IH[OF r' b' this] show ?thesis .
      next
        case nb: False
        have "flm_inner j2len i blo bhi js (newj2len(j \<mapsto> k), best) = (m', best')"
          using Cons.prems(3) nlt False nb best by (simp add: k_def Let_def)
        from Cons.IH[OF r' Cons.prems(2) this] show ?thesis .
      qed
    qed
  qed
qed

lemma row_ok_empty: "row_ok blo bhi n Map.empty"
  by (simp add: row_ok_def)

lemma flm_outer_ok:
  "row_ok blo bhi n j2len \<Longrightarrow> best_ok alo ahi blo bhi best \<Longrightarrow> alo + n \<le> i \<Longrightarrow> i + length is \<le> ahi \<Longrightarrow>
   flm_outer a b2j blo bhi [i..<i + length is] (j2len, best) = (m', best') \<Longrightarrow>
   best_ok alo ahi blo bhi best'"
proof (induction "is" arbitrary: i n j2len best)
  case Nil
  then show ?case by simp
next
  case (Cons x xs)
  obtain besti bestj bestsize where best: "best = (besti, bestj, bestsize)"
    by (cases best) auto
  obtain m1 best1 where st1:
    "flm_inner j2len i blo bhi (b2j_get b2j (a ! i)) (Map.empty, best) = (m1, best1)"
    by (cases "flm_inner j2len i blo bhi (b2j_get b2j (a ! i)) (Map.empty, best)") auto
  have lt: "i < ahi" using Cons.prems(4) by simp
  from flm_inner_ok[OF Cons.prems(1) Cons.prems(3) lt row_ok_empty Cons.prems(2) st1]
  have ok1: "row_ok blo bhi (Suc n) m1" "best_ok alo ahi blo bhi best1" by auto
  have up: "[i..<i + length (x # xs)] = i # [Suc i..<Suc i + length xs]"
    by (simp add: upt_rec)
  have "flm_outer a b2j blo bhi [Suc i..<Suc i + length xs] (m1, best1) = (m', best')"
    using Cons.prems(5) st1 best unfolding up by simp
  from Cons.IH[OF ok1 _ _ this] Cons.prems(3,4) show ?case by simp
qed


lemma extend_left_ok:
  "best_ok alo ahi blo bhi t \<Longrightarrow> best_ok alo ahi blo bhi (extend_left a b alo blo t)"
proof (induction a b alo blo t rule: extend_left.induct)
  case (1 a b alo blo besti bestj bestsize)
  show ?case
  proof (cases "besti > alo \<and> bestj > blo \<and> a ! (besti - 1) = b ! (bestj - 1)")
    case True
    then have "best_ok alo ahi blo bhi (besti - 1, bestj - 1, bestsize + 1)"
      using "1.prems" unfolding best_ok_def by auto
    from "1.IH"[OF True this] True show ?thesis
      by (subst extend_left.simps) simp
  next
    case False
    then show ?thesis using "1.prems"
      by (subst extend_left.simps) auto
  qed
qed

lemma extend_right_ok:
  "best_ok alo ahi blo bhi t \<Longrightarrow> best_ok alo ahi blo bhi (extend_right a b ahi bhi t)"
proof (induction a b ahi bhi t rule: extend_right.induct)
  case (1 a b ahi bhi besti bestj bestsize)
  show ?case
  proof (cases "besti + bestsize < ahi \<and> bestj + bestsize < bhi \<and>
         a ! (besti + bestsize) = b ! (bestj + bestsize)")
    case True
    then have "best_ok alo ahi blo bhi (besti, bestj, bestsize + 1)"
      using "1.prems" unfolding best_ok_def by auto
    from "1.IH"[OF True this] True show ?thesis
      by (subst extend_right.simps) simp
  next
    case False
    then show ?thesis using "1.prems"
      by (subst extend_right.simps) auto
  qed
qed

lemma find_longest_match_ok:
  "best_ok alo ahi blo bhi (find_longest_match a b b2j alo ahi blo bhi)"
proof -
  obtain m' best' where r: "flm_outer a b2j blo bhi [alo..<ahi] (Map.empty, alo, blo, 0) = (m', best')"
    by (cases "flm_outer a b2j blo bhi [alo..<ahi] (Map.empty, alo, blo, 0)") auto
  have b0: "best_ok alo ahi blo bhi (alo, blo, 0)" by (simp add: best_ok_def)
  have "best_ok alo ahi blo bhi best'"
  proof (cases "alo \<le> ahi")
    case True
    have "[alo..<ahi] = [alo..<alo + length [alo..<ahi]]" using True by simp
    with r have "flm_outer a b2j blo bhi [alo..<alo + length [alo..<ahi]] (Map.empty, alo, blo, 0) = (m', best')"
      by simp
    from flm_outer_ok[OF row_ok_empty b0 _ _ this, of 0] True show ?thesis by simp
  next
    case False
    then show ?thesis using r b0 by simp
  qed
  then show ?thesis
    using r by (cases best') (simp add: find_longest_match_def extend_left_ok extend_right_ok)
qed

lemma find_longest_match_bounds:
  assumes "find_longest_match a b b2j alo ahi blo bhi = (i, j, k)" "k \<noteq> 0"
  shows "alo \<le> i \<and> i + k \<le> ahi \<and> blo \<le> j \<and> j + k \<le> bhi"
  using find_longest_match_ok[of alo ahi blo bhi a b b2j] assms
  by (auto simp: best_ok_def)

text \<open>
  \<open>get_matching_blocks\<close>. The list \<open>queue\<close> is used as a stack (\<open>queue.pop()\<close> takes its
  last element): the model keeps its last element at the head. The left part is pushed
  before the right part, so the right part is popped first.
\<close>

function matching_loop ::
  "'a list \<Rightarrow> 'a list \<Rightarrow> ('a \<rightharpoonup> nat list) \<Rightarrow> (nat \<times> nat \<times> nat \<times> nat) list \<Rightarrow>
   (nat \<times> nat \<times> nat) list \<Rightarrow> (nat \<times> nat \<times> nat) list" where
  "matching_loop a b b2j [] matching_blocks = matching_blocks"
| "matching_loop a b b2j ((alo, ahi, blo, bhi) # queue) matching_blocks =
     (case find_longest_match a b b2j alo ahi blo bhi of
        (i, j, k) \<Rightarrow>
          if k \<noteq> 0
          then matching_loop a b b2j
                 ((if i + k < ahi \<and> j + k < bhi then [(i + k, ahi, j + k, bhi)] else []) @
                  (if alo < i \<and> blo < j then [(alo, i, blo, j)] else []) @ queue)
                 (matching_blocks @ [(i, j, k)])
          else matching_loop a b b2j queue matching_blocks)"
  by pat_completeness auto
termination matching_loop
  apply (relation "measure (\<lambda>(a, b, b2j, queue, matching_blocks).
         sum_list (map (\<lambda>(alo, ahi, blo, bhi). 2 * (ahi - alo) + 1) queue))")
    apply simp
   apply (auto dest!: find_longest_match_bounds[OF sym])
  done

declare matching_loop.simps [simp del]

text \<open>
  The loop that merges adjacent blocks, on the state \<open>(i1, j1, k1)\<close>; the result is the
  list \<open>non_adjacent\<close>.
\<close>

fun merge_adjacent :: "nat \<times> nat \<times> nat \<Rightarrow> (nat \<times> nat \<times> nat) list \<Rightarrow> (nat \<times> nat \<times> nat) list" where
  "merge_adjacent (i1, j1, k1) [] = (if k1 \<noteq> 0 then [(i1, j1, k1)] else [])"
| "merge_adjacent (i1, j1, k1) ((i2, j2, k2) # rest) =
     (if i1 + k1 = i2 \<and> j1 + k1 = j2
      then merge_adjacent (i1, j1, k1 + k2) rest
      else (if k1 \<noteq> 0 then [(i1, j1, k1)] else []) @ merge_adjacent (i2, j2, k2) rest)"

text \<open>\<open>matching_blocks.sort()\<close> orders the triples lexicographically.\<close>

definition get_matching_blocks :: "'a list \<Rightarrow> 'a list \<Rightarrow> (nat \<times> nat \<times> nat) list" where
  "get_matching_blocks a b =
     (let la = length a; lb = length b;
          matching_blocks = sort (matching_loop a b (chain_b b) [(0, la, 0, lb)] [])
      in merge_adjacent (0, 0, 0) matching_blocks @ [(la, lb, 0)])"

text \<open>
  \<open>_calculate_ratio\<close> and \<open>ratio\<close>. Python computes \<open>2.0 * matches / length\<close> in binary
  floating point; the model computes the same quotient exactly, as a rational number.
\<close>

definition calculate_ratio :: "nat \<Rightarrow> nat \<Rightarrow> rat" where
  "calculate_ratio matches len = (if len \<noteq> 0 then 2 * of_nat matches / of_nat len else 1)"

definition ratio :: "'a list \<Rightarrow> 'a list \<Rightarrow> rat" where
  "ratio a b =
     (let matches = sum_list (map (\<lambda>(i, j, k). k) (get_matching_blocks a b))
      in calculate_ratio matches (length a + length b))"

section \<open>The similarity score\<close>

text \<open>
  \<open>compute_similarity(sentence, pointer)\<close>, in exact arithmetic: \<open>0.1\<close> is the rational
  \<open>1/10\<close>.
\<close>

definition keyword_hits :: "string \<Rightarrow> string \<Rightarrow> nat" where
  "keyword_hits sentence pointer =
     length (filter (\<lambda>token. contains token (lower sentence)) (findall_word (lower pointer)))"

definition compute_similarity :: "string \<Rightarrow> string \<Rightarrow> rat" where
  "compute_similarity sentence pointer =
     ratio (lower sentence) (lower pointer) + (1 / 10) * of_nat (keyword_hits sentence pointer)"

section \<open>The page matcher\<close>

text \<open>
  The pattern of \<open>find_snippets\<close> is the raw string \<open>r"[^.!?\\n]+[.!?]?"\<close>. In a raw
  string the two backslashes are an escaped backslash and the \<open>n\<close> after them is the
  letter, so the class \<open>[^.!?\\n]\<close> holds every character but the full stop, the
  exclamation mark, the question mark, the backslash and the letter \<open>n\<close> (a line feed is
  in the class).
\<close>

definition in_class :: "char \<Rightarrow> bool" where
  "in_class c =
     (c \<noteq> CHR ''.'' \<and> c \<noteq> CHR ''!'' \<and> c \<noteq> CHR ''?'' \<and> c \<noteq> CHR 0x5C \<and> c \<noteq> CHR ''n'')"

definition is_terminator :: "char \<Rightarrow> bool" where
  "is_terminator c = (c = CHR ''.'' \<or> c = CHR ''!'' \<or> c = CHR ''?'')"

text \<open>
  \<open>pattern.finditer(page_text)\<close>, as the list of \<open>(match.group(), match.start(),
  match.end())\<close>. The scan is at offset \<open>pos\<close> with the rest of the text before it. Where
  the character is outside the class no match starts and the scan moves on by one; where
  it is inside, \<open>+\<close> takes the longest run of class characters, \<open>?\<close> takes one
  terminator if one follows, and the scan goes on from the end of the match.
\<close>

function finditer :: "nat \<Rightarrow> string \<Rightarrow> (string \<times> nat \<times> nat) list" where
  "finditer pos [] = []"
| "finditer pos (c # cs) =
     (if \<not> in_class c then finditer (pos + 1) cs
      else (let run = takeWhile in_class (c # cs);
                rest = dropWhile in_class (c # cs);
                term = (case rest of [] \<Rightarrow> [] | t # _ \<Rightarrow> if is_terminator t then [t] else []);
                g = run @ term
            in (g, pos, pos + length g) # finditer (pos + length g) (drop (length term) rest)))"
  by pat_completeness auto
termination
  by (relation "measure (\<lambda>(pos, s). length s)")
     (auto intro!: le_imp_less_Suc le_trans[OF diff_le_self length_dropWhile_le])

text \<open>
  A candidate is the dictionary \<open>{"snippet", "start", "end", "score"}\<close>; the score is the
  exact rational of \<open>compute_similarity\<close>.
\<close>

record candidate =
  c_snippet :: string
  c_start :: nat
  c_end :: nat
  c_score :: rat

text \<open>The loop over the matches: a match that strips to the empty string is skipped.\<close>

fun collect_candidates :: "string \<Rightarrow> (string \<times> nat \<times> nat) list \<Rightarrow> candidate list" where
  "collect_candidates pointer [] = []"
| "collect_candidates pointer ((g, s, e) # matches) =
     (let sentence = strip g
      in if sentence = [] then collect_candidates pointer matches
         else \<lparr>c_snippet = sentence, c_start = s, c_end = e,
               c_score = compute_similarity sentence pointer\<rparr>
              # collect_candidates pointer matches)"

text \<open>
  \<open>candidates.sort(key=lambda item: item["score"], reverse=True)\<close>: Python's sort is
  stable, and with \<open>reverse=True\<close> elements of equal key still keep their order, which is
  the stable sort by the negated score.
\<close>

definition sort_by_score_desc :: "candidate list \<Rightarrow> candidate list" where
  "sort_by_score_desc cs = sort_key (\<lambda>item. - c_score item) cs"

text \<open>
  \<open>xs[:m]\<close> for a Python \<open>int\<close>: a negative \<open>m\<close> counts from the end of the list.
\<close>

definition slice_to :: "'a list \<Rightarrow> int \<Rightarrow> 'a list" where
  "slice_to xs m = (if m < 0 then take (nat (int (length xs) + m)) xs else take (nat m) xs)"

definition find_snippets :: "string \<Rightarrow> string \<Rightarrow> int \<Rightarrow> candidate list" where
  "find_snippets page_text pointer max_snippets =
     slice_to (sort_by_score_desc (collect_candidates pointer (finditer 0 page_text))) max_snippets"

section \<open>The pointer aggregator and the document pipeline\<close>

text \<open>
  A page is the dictionary \<open>{"page", "text"}\<close> of \<open>load_pdf_pages\<close>; a match is the
  dictionary \<open>{"snippet", "page", "start", "end", "rationale"}\<close>, whose \<open>page\<close>, \<open>start\<close> and
  \<open>end\<close> are \<open>None\<close> in the entry that reports no match.
\<close>

record page =
  p_page :: int
  p_text :: string

record match_entry =
  m_snippet :: string
  m_page :: "int option"
  m_start :: "nat option"
  m_end :: "nat option"
  m_rationale :: string

record response_entry =
  r_pointer :: string
  r_matches :: "match_entry list"

text \<open>
  \<open>f"{x:.2f}"\<close>: the sign, the integer part in decimal, a point and two decimals, the
  value rounded to the nearest hundredth, a tie to the even one. The model formats the
  exact rational score.
\<close>

definition digit_char :: "nat \<Rightarrow> char" where
  "digit_char d = char_of (48 + d)"

function decimal :: "nat \<Rightarrow> string" where
  "decimal n = (if n < 10 then [digit_char n] else decimal (n div 10) @ [digit_char (n mod 10)])"
  by pat_completeness auto
termination
  by (relation "measure id") auto

declare decimal.simps [simp del]

definition round_half_even :: "rat \<Rightarrow> int" where
  "round_half_even x =
     (let f = \<lfloor>x\<rfloor>; d = x - of_int f
      in if d < 1 / 2 then f else if d > 1 / 2 then f + 1 else if even f then f else f + 1)"

definition format_2f :: "rat \<Rightarrow> string" where
  "format_2f x =
     (let h = nat (round_half_even (\<bar>x\<bar> * 100))
      in (if x < 0 then [CHR ''-''] else []) @ decimal (h div 100) @ [CHR ''.''] @
         [digit_char (h mod 100 div 10), digit_char (h mod 10)])"

definition rationale_of :: "string \<Rightarrow> rat \<Rightarrow> string" where
  "rationale_of pointer score =
     ''Sentence matched pointer '' @ [CHR 0x27] @ pointer @ [CHR 0x27] @
     '' with similarity '' @ format_2f score @ ''.''"

text \<open>The inner loop of \<open>build_response_entry\<close>: one match for each snippet of a page.\<close>

definition entry_of :: "string \<Rightarrow> page \<Rightarrow> candidate \<Rightarrow> match_entry" where
  "entry_of pointer pg snippet =
     \<lparr>m_snippet = c_snippet snippet, m_page = Some (p_page pg),
      m_start = Some (c_start snippet), m_end = Some (c_end snippet),
      m_rationale = rationale_of pointer (c_score snippet)\<rparr>"

text \<open>The outer loop: the matches of all pages, in the order of the pages.\<close>

fun collect_matches :: "string \<Rightarrow> page list \<Rightarrow> match_entry list" where
  "collect_matches pointer [] = []"
| "collect_matches pointer (pg # pages) =
     map (entry_of pointer pg) (find_snippets (p_text pg) pointer 2) @ collect_matches pointer pages"

definition no_match_entry :: match_entry where
  "no_match_entry =
     \<lparr>m_snippet = [], m_page = None, m_start = None, m_end = None,
      m_rationale = ''No matching text found for the pointer.''\<rparr>"

text \<open>The key of the final sort: \<open>item["page"] if item["page"] is not None else 1_000_000\<close>.\<close>

definition page_key :: "match_entry \<Rightarrow> int" where
  "page_key item = (case m_page item of Some p \<Rightarrow> p | None \<Rightarrow> 1000000)"

definition build_response_entry :: "string \<Rightarrow> page list \<Rightarrow> response_entry" where
  "build_response_entry pointer pages =
     (let matches = collect_matches pointer pages
      in if matches = [] then \<lparr>r_pointer = pointer, r_matches = [no_match_entry]\<rparr>
         else \<lparr>r_pointer = pointer, r_matches = sort_key page_key matches\<rparr>)"

text \<open>
  The core of \<open>extract_facts\<close>, once the request is validated and the pages are read:
  \<open>[build_response_entry(pointer, pages) for pointer in pointer_list]\<close>.
\<close>

definition analyze_document :: "page list \<Rightarrow> string list \<Rightarrow> response_entry list" where
  "analyze_document pages pointer_list =
     map (\<lambda>pointer. build_response_entry pointer pages) pointer_list"

section \<open>The fallback entry\<close>


lemma length_sort_by_score_desc: "length (sort_by_score_desc cs) = length cs"
  by (simp add: sort_by_score_desc_def)

lemma find_snippets_two_Nil_iff:
  "find_snippets page_text pointer 2 = [] \<longleftrightarrow> collect_candidates pointer (finditer 0 page_text) = []"
proof -
  have "find_snippets page_text pointer 2 = [] \<longleftrightarrow>
        length (sort_by_score_desc (collect_candidates pointer (finditer 0 page_text))) = 0"
    by (simp add: find_snippets_def slice_to_def)
  then show ?thesis by (simp add: length_sort_by_score_desc)
qed

lemma collect_matches_Nil_iff:
  "collect_matches pointer pages = [] \<longleftrightarrow>
   (\<forall>pg \<in> set pages. find_snippets (p_text pg) pointer 2 = [])"
  by (induction pages) auto

lemma collect_matches_page:
  "e \<in> set (collect_matches pointer pages) \<Longrightarrow> \<exists>pg \<in> set pages. m_page e = Some (p_page pg)"
  by (induction pages) (auto simp: entry_of_def)

lemma no_match_entry_notin: "no_match_entry \<notin> set (collect_matches pointer pages)"
proof
  assume "no_match_entry \<in> set (collect_matches pointer pages)"
  from collect_matches_page[OF this] show False by (simp add: no_match_entry_def)
qed

text \<open>
  C4. The report of \<open>build_response_entry\<close> holds the entry that reports no match
  (empty snippet, no page, no offsets, the rationale "No matching text found for the
  pointer.") exactly when no page produced a candidate; then it is the only entry; and
  the list of matches is never empty.
\<close>

theorem fallback_iff_no_candidates:
  "(no_match_entry \<in> set (r_matches (build_response_entry pointer pages)) \<longleftrightarrow>
      (\<forall>pg \<in> set pages. collect_candidates pointer (finditer 0 (p_text pg)) = [])) \<and>
   (no_match_entry \<in> set (r_matches (build_response_entry pointer pages)) \<longrightarrow>
      r_matches (build_response_entry pointer pages) = [no_match_entry]) \<and>
   r_matches (build_response_entry pointer pages) \<noteq> []"
proof (cases "collect_matches pointer pages = []")
  case True
  then have "\<forall>pg \<in> set pages. collect_candidates pointer (finditer 0 (p_text pg)) = []"
    by (simp add: collect_matches_Nil_iff find_snippets_two_Nil_iff)
  with True show ?thesis by (simp add: build_response_entry_def)
next
  case False
  then have ne: "\<not> (\<forall>pg \<in> set pages. collect_candidates pointer (finditer 0 (p_text pg)) = [])"
    by (simp add: collect_matches_Nil_iff find_snippets_two_Nil_iff)
  have m: "r_matches (build_response_entry pointer pages) = sort_key page_key (collect_matches pointer pages)"
    using False by (simp add: build_response_entry_def)
  have "no_match_entry \<notin> set (r_matches (build_response_entry pointer pages))"
    unfolding m using no_match_entry_notin by simp
  moreover have "r_matches (build_response_entry pointer pages) \<noteq> []"
    unfolding m using False by (metis length_sort length_0_conv)
  ultimately show ?thesis using ne by blast
qed

lemma finditer_Nil: "finditer pos [] = []"
  by simp

theorem fallback_iff_no_candidates_witness:
  "no_match_entry \<in> set (r_matches (build_response_entry ''x'' [\<lparr>p_page = 1, p_text = ''''\<rparr>])) \<and>
   r_matches (build_response_entry ''x'' [\<lparr>p_page = 1, p_text = ''''\<rparr>]) = [no_match_entry]"
  using fallback_iff_no_candidates[of "''x''" "[\<lparr>p_page = 1, p_text = ''''\<rparr>]"]
  by simp

section \<open>The document pipeline is total\<close>

text \<open>
  Every function of the model is a total function of HOL: the loops of the source are
  recursive functions with a termination proof, the only division (in
  \<open>calculate_ratio\<close>) is guarded as in the source, and no list is read out of range.
\<close>

lemma build_response_entry_pointer: "r_pointer (build_response_entry pointer pages) = pointer"
  by (simp add: build_response_entry_def Let_def)

lemma sort_key_Nil_iff: "sort_key f xs = [] \<longleftrightarrow> xs = []"
  by (metis length_sort length_0_conv)

lemma build_response_entry_nonempty: "r_matches (build_response_entry pointer pages) \<noteq> []"
proof (cases "collect_matches pointer pages = []")
  case True
  then show ?thesis by (simp add: build_response_entry_def)
next
  case False
  then show ?thesis by (simp add: build_response_entry_def Let_def sort_key_Nil_iff)
qed

lemma find_snippets_empty_text: "find_snippets [] pointer m = []"
  by (simp add: find_snippets_def sort_by_score_desc_def slice_to_def)

lemma collect_matches_empty_texts:
  "\<forall>pg \<in> set pages. p_text pg = [] \<Longrightarrow> collect_matches pointer pages = []"
  by (induction pages) (auto simp: find_snippets_empty_text)

lemma build_response_entry_empty_texts:
  "\<forall>pg \<in> set pages. p_text pg = [] \<Longrightarrow>
   r_matches (build_response_entry pointer pages) = [no_match_entry]"
  by (simp add: build_response_entry_def collect_matches_empty_texts)

text \<open>
  C8. For any pages and any pointers \<open>analyze_document\<close> returns one report for each
  pointer, in the order of the pointers, each with at least one match; when every page
  has an empty text (or there is no page) each report is the single entry with no page
  and the rationale "No matching text found for the pointer."
\<close>

theorem analyze_document_total:
  "map r_pointer (analyze_document pages pointer_list) = pointer_list \<and>
   (\<forall>r \<in> set (analyze_document pages pointer_list). r_matches r \<noteq> []) \<and>
   ((\<forall>pg \<in> set pages. p_text pg = []) \<longrightarrow>
      (\<forall>r \<in> set (analyze_document pages pointer_list).
         \<exists>e. r_matches r = [e] \<and> m_page e = None \<and> m_snippet e = [] \<and>
             m_rationale e = ''No matching text found for the pointer.''))"
proof (intro conjI impI)
  show "map r_pointer (analyze_document pages pointer_list) = pointer_list"
    by (simp add: analyze_document_def build_response_entry_pointer comp_def)
  show "\<forall>r \<in> set (analyze_document pages pointer_list). r_matches r \<noteq> []"
    by (auto simp: analyze_document_def build_response_entry_nonempty)
next
  assume e: "\<forall>pg \<in> set pages. p_text pg = []"
  show "\<forall>r \<in> set (analyze_document pages pointer_list).
         \<exists>e. r_matches r = [e] \<and> m_page e = None \<and> m_snippet e = [] \<and>
             m_rationale e = ''No matching text found for the pointer.''"
  proof
    fix r assume "r \<in> set (analyze_document pages pointer_list)"
    then obtain pointer where "r = build_response_entry pointer pages"
      by (auto simp: analyze_document_def)
    then have "r_matches r = [no_match_entry]"
      using build_response_entry_empty_texts[OF e] by simp
    then show "\<exists>e. r_matches r = [e] \<and> m_page e = None \<and> m_snippet e = [] \<and>
             m_rationale e = ''No matching text found for the pointer.''"
      by (simp add: no_match_entry_def)
  qed
qed

theorem analyze_document_total_witness:
  "map r_pointer (analyze_document [\<lparr>p_page = 1, p_text = []\<rparr>, \<lparr>p_page = 2, p_text = []\<rparr>] [''fee'', []]) = [''fee'', []] \<and>
   map r_matches (analyze_document [\<lparr>p_page = 1, p_text = []\<rparr>, \<lparr>p_page = 2, p_text = []\<rparr>] [''fee'', []]) =
     [[no_match_entry], [no_match_entry]] \<and>
   map r_matches (analyze_document [] [''fee'']) = [[no_match_entry]]"
proof -
  let ?pages = "[\<lparr>p_page = 1, p_text = []\<rparr>, \<lparr>p_page = 2, p_text = []\<rparr>]"
  have h: "\<forall>pg \<in> set ?pages. p_text pg = []" by simp
  have h0: "\<forall>pg \<in> set ([] :: page list). p_text pg = []" by simp
  from analyze_document_total[of ?pages "[''fee'', []]"] h
  have 1: "map r_pointer (analyze_document ?pages [''fee'', []]) = [''fee'', []]"
    and 2: "\<forall>r \<in> set (analyze_document ?pages [''fee'', []]).
         \<exists>e. r_matches r = [e] \<and> m_page e = None \<and> m_snippet e = [] \<and>
             m_rationale e = ''No matching text found for the pointer.''"
    by blast+
  have 3: "map r_matches (analyze_document ?pages [''fee'', []]) = [[no_match_entry], [no_match_entry]]"
    by (simp add: analyze_document_def build_response_entry_empty_texts)
  have 4: "map r_matches (analyze_document [] [''fee'']) = [[no_match_entry]]"
    by (simp add: analyze_document_def build_response_entry_def)
  from 1 3 4 show ?thesis by simp
qed

section \<open>Properties of the scan\<close>

text \<open>The optional terminator that the scan takes after a run, as a function of the rest.\<close>

definition term_of :: "string \<Rightarrow> string" where
  "term_of rest = (case rest of [] \<Rightarrow> [] | t # _ \<Rightarrow> if is_terminator t then [t] else [])"

lemma finditer_Cons_in:
  assumes "in_class c"
  shows "finditer pos (c # cs) =
     (takeWhile in_class (c # cs) @ term_of (dropWhile in_class (c # cs)), pos,
      pos + length (takeWhile in_class (c # cs) @ term_of (dropWhile in_class (c # cs))))
     # finditer (pos + length (takeWhile in_class (c # cs) @ term_of (dropWhile in_class (c # cs))))
         (drop (length (term_of (dropWhile in_class (c # cs)))) (dropWhile in_class (c # cs)))"
  using assms by (simp add: Let_def term_of_def del: takeWhile.simps dropWhile.simps)

lemma finditer_Cons_out: "\<not> in_class c \<Longrightarrow> finditer pos (c # cs) = finditer (Suc pos) cs"
  by simp

declare finditer.simps(2) [simp del]

lemma term_of_prefix: "term_of rest @ drop (length (term_of rest)) rest = rest"
  by (cases rest) (auto simp: term_of_def)

lemma term_of_cases: "term_of rest = [] \<or> (\<exists>t. term_of rest = [t] \<and> is_terminator t)"
  by (cases rest) (auto simp: term_of_def)

text \<open>
  A text that starts inside the class splits into the match and what the scan goes on
  with.
\<close>

lemma match_split:
  fixes c :: char and cs :: string
  assumes "in_class c"
  defines "g \<equiv> takeWhile in_class (c # cs) @ term_of (dropWhile in_class (c # cs))"
  defines "rest' \<equiv> drop (length (term_of (dropWhile in_class (c # cs)))) (dropWhile in_class (c # cs))"
  shows "c # cs = g @ rest'" and "g \<noteq> []" and "length rest' < length (c # cs)"
proof -
  have "c # cs = takeWhile in_class (c # cs) @ dropWhile in_class (c # cs)" by simp
  also have "dropWhile in_class (c # cs) = term_of (dropWhile in_class (c # cs)) @ rest'"
    unfolding rest'_def by (simp only: term_of_prefix)
  finally show 1: "c # cs = g @ rest'" unfolding g_def by simp
  show 2: "g \<noteq> []" using assms(1) by (simp add: g_def)
  have "length (c # cs) = length g + length rest'" using 1 by (metis length_append)
  with 2 show "length rest' < length (c # cs)" by (cases g) auto
qed

text \<open>Induction along the scan.\<close>

lemma finditer_induct [case_names Nil Out In]:
  assumes "\<And>pos. P pos []"
    and "\<And>pos c cs. \<not> in_class c \<Longrightarrow> P (Suc pos) cs \<Longrightarrow> P pos (c # cs)"
    and "\<And>pos c cs g rest'. in_class c \<Longrightarrow>
           g = takeWhile in_class (c # cs) @ term_of (dropWhile in_class (c # cs)) \<Longrightarrow>
           rest' = drop (length (term_of (dropWhile in_class (c # cs)))) (dropWhile in_class (c # cs)) \<Longrightarrow>
           c # cs = g @ rest' \<Longrightarrow> g \<noteq> [] \<Longrightarrow>
           finditer pos (c # cs) = (g, pos, pos + length g) # finditer (pos + length g) rest' \<Longrightarrow>
           P (pos + length g) rest' \<Longrightarrow> P pos (c # cs)"
  shows "P pos str"
proof (induction "length str" arbitrary: pos str rule: less_induct)
  case less
  show ?case
  proof (cases str)
    case Nil
    then show ?thesis using assms(1) by simp
  next
    case (Cons c cs)
    show ?thesis
    proof (cases "in_class c")
      case False
      have "P (Suc pos) cs" using less.hyps[of cs "Suc pos"] Cons by simp
      from assms(2)[OF False this] Cons show ?thesis by simp
    next
      case True
      define g where "g = takeWhile in_class (c # cs) @ term_of (dropWhile in_class (c # cs))"
      define rest' where "rest' = drop (length (term_of (dropWhile in_class (c # cs)))) (dropWhile in_class (c # cs))"
      have sp: "c # cs = g @ rest'" "g \<noteq> []" "length rest' < length (c # cs)"
        using match_split[OF True, of cs] unfolding g_def rest'_def by auto
      have fi: "finditer pos (c # cs) = (g, pos, pos + length g) # finditer (pos + length g) rest'"
        unfolding g_def rest'_def by (rule finditer_Cons_in[OF True])
      have "P (pos + length g) rest'" using less.hyps[of rest' "pos + length g"] sp(3) Cons by simp
      from assms(3)[OF True g_def rest'_def sp(1,2) fi this] Cons show ?thesis by simp
    qed
  qed
qed


text \<open>
  Every match is a non-empty run of class characters, followed by nothing or by one
  terminator.
\<close>

lemma finditer_shape:
  "(g, s, e) \<in> set (finditer pos str) \<Longrightarrow>
   \<exists>run tm. g = run @ tm \<and> run \<noteq> [] \<and> (\<forall>ch \<in> set run. in_class ch) \<and>
            (tm = [] \<or> (\<exists>t. tm = [t] \<and> is_terminator t))"
proof (induction pos str rule: finditer_induct)
  case (Nil pos)
  then show ?case by simp
next
  case (Out pos c cs)
  then show ?case by (simp add: finditer_Cons_out)
next
  case (In pos c cs g0 rest')
  from In.prems In.hyps(6) consider "g = g0" | "(g, s, e) \<in> set (finditer (pos + length g0) rest')"
    by auto
  then show ?case
  proof cases
    case 1
    have "takeWhile in_class (c # cs) \<noteq> []" using In.hyps(1) by simp
    moreover have "\<forall>ch \<in> set (takeWhile in_class (c # cs)). in_class ch"
      by (metis set_takeWhileD)
    ultimately show ?thesis
      using term_of_cases[of "dropWhile in_class (c # cs)"] unfolding 1 In.hyps(2) by blast
  next
    case 2
    from In.IH[OF 2] show ?thesis .
  qed
qed


section \<open>Properties of the candidates\<close>


lemma collect_candidates_mem:
  "c \<in> set (collect_candidates pointer ms) \<Longrightarrow>
   \<exists>g. (g, c_start c, c_end c) \<in> set ms \<and> c_snippet c = strip g \<and> strip g \<noteq> [] \<and>
       c_score c = compute_similarity (strip g) pointer"
proof (induction ms)
  case Nil
  then show ?case by simp
next
  case (Cons m ms)
  obtain g s e where m: "m = (g, s, e)" by (cases m) auto
  show ?case
  proof (cases "strip g = []")
    case True
    with Cons m show ?thesis by auto
  next
    case False
    with Cons.prems m consider
      "c = \<lparr>c_snippet = strip g, c_start = s, c_end = e, c_score = compute_similarity (strip g) pointer\<rparr>"
      | "c \<in> set (collect_candidates pointer ms)" by (auto simp: Let_def)
    then show ?thesis
    proof cases
      case 1
      then show ?thesis using False m by auto
    next
      case 2
      from Cons.IH[OF 2] show ?thesis by auto
    qed
  qed
qed




section \<open>The ranking of a page\<close>



lemma set_slice_to: "set (slice_to xs m) \<subseteq> set xs"
  by (auto simp: slice_to_def dest: in_set_takeD)


lemma find_snippets_subset:
  "set (find_snippets page_text pointer m) \<subseteq> set (collect_candidates pointer (finditer 0 page_text))"
proof -
  have "set (sort_by_score_desc (collect_candidates pointer (finditer 0 page_text))) =
        set (collect_candidates pointer (finditer 0 page_text))"
    unfolding sort_by_score_desc_def by (rule set_sort)
  then show ?thesis
    unfolding find_snippets_def
    using set_slice_to[of "sort_by_score_desc (collect_candidates pointer (finditer 0 page_text))" m]
    by blast
qed






section \<open>The characters of a snippet\<close>

lemma set_strip: "set (strip s) \<subseteq> set s"
proof -
  have "set (strip s) = set (dropWhile isspace (rev (dropWhile isspace s)))"
    by (simp add: strip_def)
  also have "\<dots> \<subseteq> set (rev (dropWhile isspace s))"
    by (meson set_dropWhileD subsetI)
  also have "\<dots> \<subseteq> set s"
    using set_dropWhileD by fastforce
  finally show ?thesis .
qed

lemma terminator_not_space: "is_terminator t \<Longrightarrow> \<not> isspace t"
  by (auto simp: is_terminator_def isspace_def)

lemma terminator_not_in_class: "is_terminator t \<Longrightarrow> \<not> in_class t"
  by (auto simp: is_terminator_def in_class_def)

lemma strip_terminated:
  assumes "\<not> isspace t"
  shows "\<exists>xs. strip (run @ [t]) = xs @ [t] \<and> set xs \<subseteq> set run"
proof -
  obtain xs where xs: "dropWhile isspace (run @ [t]) = xs @ [t]" "set xs \<subseteq> set run"
  proof (cases "\<forall>x \<in> set run. isspace x")
    case True
    then have "dropWhile isspace (run @ [t]) = [] @ [t]"
      using assms by (simp add: dropWhile_append)
    then show ?thesis using that[of "[]"] by simp
  next
    case False
    then have "dropWhile isspace (run @ [t]) = dropWhile isspace run @ [t]"
      by (simp add: dropWhile_append)
    moreover have "set (dropWhile isspace run) \<subseteq> set run"
      by (meson set_dropWhileD subsetI)
    ultimately show ?thesis using that by blast
  qed
  have "strip (run @ [t]) = rev (dropWhile isspace (t # rev xs))"
    unfolding strip_def xs(1) by simp
  also have "\<dots> = xs @ [t]" using assms by simp
  finally show ?thesis using xs(2) by blast
qed

text \<open>
  What a match leaves in its snippet: class characters, but for a terminator in the last
  place.
\<close>

lemma snippet_of_match:
  assumes "g = run @ tm" "\<forall>ch \<in> set run. in_class ch"
    and "tm = [] \<or> (\<exists>t. tm = [t] \<and> is_terminator t)"
  shows "(\<forall>ch \<in> set (butlast (strip g)). in_class ch) \<and>
         (\<forall>ch \<in> set (strip g). in_class ch \<or> is_terminator ch)"
proof (cases "tm = []")
  case True
  then have "set (strip g) \<subseteq> set run" using assms(1) set_strip by simp
  moreover have "set (butlast (strip g)) \<subseteq> set (strip g)"
    by (meson in_set_butlastD subsetI)
  ultimately show ?thesis using assms(2) by blast
next
  case False
  with assms(3) obtain t where t: "tm = [t]" "is_terminator t" by blast
  from strip_terminated[OF terminator_not_space[OF t(2)], of run]
  obtain xs where xs: "strip (run @ [t]) = xs @ [t]" "set xs \<subseteq> set run" by blast
  have "strip g = xs @ [t]" using assms(1) t(1) xs(1) by simp
  then show ?thesis using xs(2) assms(2) t(2) by auto
qed

lemma candidate_characters:
  assumes "c \<in> set (collect_candidates pointer (finditer 0 page_text))"
  shows "(\<forall>ch \<in> set (butlast (c_snippet c)). in_class ch) \<and>
         (\<forall>ch \<in> set (c_snippet c). in_class ch \<or> is_terminator ch)"
proof -
  from collect_candidates_mem[OF assms] obtain g where
    g: "(g, c_start c, c_end c) \<in> set (finditer 0 page_text)" "c_snippet c = strip g" by auto
  from finditer_shape[OF g(1)] obtain run tm where
    "g = run @ tm" "\<forall>ch \<in> set run. in_class ch"
    "tm = [] \<or> (\<exists>t. tm = [t] \<and> is_terminator t)" by blast
  from snippet_of_match[OF this] g(2) show ?thesis by simp
qed

text \<open>
  C9. A snippet that \<open>find_snippets\<close> returns has no full stop, exclamation mark or
  question mark but possibly in its last place, and has no backslash and no letter
  \<open>n\<close> anywhere.
\<close>

theorem snippet_characters:
  "\<forall>c \<in> set (find_snippets page_text pointer max_snippets).
     (\<forall>ch \<in> set (butlast (c_snippet c)). ch \<noteq> CHR ''.'' \<and> ch \<noteq> CHR ''!'' \<and> ch \<noteq> CHR ''?'') \<and>
     CHR 0x5C \<notin> set (c_snippet c) \<and> CHR ''n'' \<notin> set (c_snippet c)"
proof
  fix c assume "c \<in> set (find_snippets page_text pointer max_snippets)"
  then have "c \<in> set (collect_candidates pointer (finditer 0 page_text))"
    using find_snippets_subset by blast
  from candidate_characters[OF this]
  have 1: "\<forall>ch \<in> set (butlast (c_snippet c)). in_class ch"
    and 2: "\<forall>ch \<in> set (c_snippet c). in_class ch \<or> is_terminator ch" by simp_all
  have "\<forall>ch \<in> set (butlast (c_snippet c)). ch \<noteq> CHR ''.'' \<and> ch \<noteq> CHR ''!'' \<and> ch \<noteq> CHR ''?''"
    using 1 by (simp add: in_class_def)
  moreover have "CHR 0x5C \<notin> set (c_snippet c)"
    using 2 by (auto simp: in_class_def is_terminator_def)
  moreover have "CHR ''n'' \<notin> set (c_snippet c)"
    using 2 by (auto simp: in_class_def is_terminator_def)
  ultimately show "(\<forall>ch \<in> set (butlast (c_snippet c)). ch \<noteq> CHR ''.'' \<and> ch \<noteq> CHR ''!'' \<and> ch \<noteq> CHR ''?'') \<and>
     CHR 0x5C \<notin> set (c_snippet c) \<and> CHR ''n'' \<notin> set (c_snippet c)" by blast
qed

text \<open>
  A page with a letter \<open>n\<close> and a backslash: both end a snippet and stand in none.
\<close>

lemma find_snippets_an_apple:
  "map c_snippet (find_snippets (''an apple. no'' @ [CHR 0x5C] @ ''way!'') ''apple'' 5) =
     [''apple.'', ''a'', ''way!'', ''o'']"
  by code_simp


theorem snippet_characters_witness:
  "map c_snippet (find_snippets (''an apple. no'' @ [CHR 0x5C] @ ''way!'') ''apple'' 5) =
     [''apple.'', ''a'', ''way!'', ''o''] \<and>
   CHR ''n'' \<notin> set ''apple.'' \<and> CHR 0x5C \<notin> set ''apple.'' \<and>
   CHR ''.'' \<notin> set (butlast ''apple.'')"
proof -
  let ?r = "find_snippets (''an apple. no'' @ [CHR 0x5C] @ ''way!'') ''apple'' 5"
  have "''apple.'' \<in> set (map c_snippet ?r)"
    by (simp only: find_snippets_an_apple) simp
  then obtain c where c: "c \<in> set ?r" "c_snippet c = ''apple.''" by auto
  from snippet_characters[of "''an apple. no'' @ [CHR 0x5C] @ ''way!''" "''apple''" 5] c(1)
  have "(\<forall>ch \<in> set (butlast (c_snippet c)). ch \<noteq> CHR ''.'' \<and> ch \<noteq> CHR ''!'' \<and> ch \<noteq> CHR ''?'') \<and>
     CHR 0x5C \<notin> set (c_snippet c) \<and> CHR ''n'' \<notin> set (c_snippet c)" by blast
  then have "CHR ''n'' \<notin> set ''apple.'' \<and> CHR 0x5C \<notin> set ''apple.'' \<and>
     CHR ''.'' \<notin> set (butlast ''apple.'')"
    unfolding c(2) by blast
  with find_snippets_an_apple show ?thesis by blast
qed

section \<open>The order of the matches of a pointer\<close>











text \<open>
  The format of the score: digits, a point and exactly two digits, of the hundredth
  nearest to the score.
\<close>

definition is_digit :: "char \<Rightarrow> bool" where
  "is_digit c = (c \<in> set ''0123456789'')"

lemma digit_char_is_digit: "d < 10 \<Longrightarrow> is_digit (digit_char d)"
proof -
  assume "d < 10"
  then have "d \<in> set [0..<10]" by simp
  moreover have "\<forall>d \<in> set [0..<10]. is_digit (digit_char d)" by code_simp
  ultimately show ?thesis by blast
qed

lemma decimal_digits: "decimal n \<noteq> [] \<and> (\<forall>c \<in> set (decimal n). is_digit c)"
proof (induction n rule: decimal.induct)
  case (1 n)
  show ?case
  proof (cases "n < 10")
    case True
    then show ?thesis by (subst (1 2) decimal.simps) (simp add: digit_char_is_digit)
  next
    case False
    have "is_digit (digit_char (n mod 10))" by (simp add: digit_char_is_digit)
    with False 1 show ?thesis by (subst (1 2) decimal.simps) auto
  qed
qed

lemma round_half_even_nearest: "\<bar>of_int (round_half_even x) - x\<bar> \<le> 1 / 2"
proof -
  have "of_int \<lfloor>x\<rfloor> \<le> x" "x < of_int \<lfloor>x\<rfloor> + 1" by linarith+
  then show ?thesis by (auto simp: round_half_even_def Let_def)
qed

lemma format_2f_shape:
  "\<exists>ds d1 d2. format_2f x = (if x < 0 then [CHR ''-''] else []) @ ds @ [CHR ''.'', d1, d2] \<and>
     ds \<noteq> [] \<and> (\<forall>c \<in> set ds. is_digit c) \<and> is_digit d1 \<and> is_digit d2"
proof -
  define h where "h = nat (round_half_even (\<bar>x\<bar> * 100))"
  have "format_2f x = (if x < 0 then [CHR ''-''] else []) @ decimal (h div 100) @
          [CHR ''.'', digit_char (h mod 100 div 10), digit_char (h mod 10)]"
    by (simp add: format_2f_def h_def Let_def)
  moreover have "is_digit (digit_char (h mod 100 div 10))" "is_digit (digit_char (h mod 10))"
    by (simp_all add: digit_char_is_digit)
  ultimately show ?thesis using decimal_digits[of "h div 100"] by blast
qed





section \<open>The pattern against the sentence terminators\<close>

text \<open>
  The scan as the specification words it: a run of characters that are not a sentence
  terminator, then one terminator if one follows. It is \<open>finditer\<close> with the class
  \<open>[^.!?]\<close> in the place of \<open>[^.!?\\n]\<close>.
\<close>

function spec_finditer :: "nat \<Rightarrow> string \<Rightarrow> (string \<times> nat \<times> nat) list" where
  "spec_finditer pos [] = []"
| "spec_finditer pos (c # cs) =
     (if is_terminator c then spec_finditer (pos + 1) cs
      else (let run = takeWhile (\<lambda>x. \<not> is_terminator x) (c # cs);
                rest = dropWhile (\<lambda>x. \<not> is_terminator x) (c # cs);
                term = (case rest of [] \<Rightarrow> [] | t # _ \<Rightarrow> if is_terminator t then [t] else []);
                g = run @ term
            in (g, pos, pos + length g) # spec_finditer (pos + length g) (drop (length term) rest)))"
  by pat_completeness auto
termination
  by (relation "measure (\<lambda>(pos, s). length s)")
     (auto intro!: le_imp_less_Suc le_trans[OF diff_le_self length_dropWhile_le])

text \<open>
  C1 at the page text \<open>an apple.\<close>: the specification's scan gives the one span
  \<open>[0, 9)\<close> of the whole sentence; the pattern of the source stops at the letter \<open>n\<close>,
  which it leaves in no span, and gives the spans \<open>[0, 1)\<close> and \<open>[2, 9)\<close>.
\<close>

theorem segmenter_splits_at_letter_n:
  "finditer 0 ''an apple.'' = [(''a'', 0, 1), ('' apple.'', 2, 9)] \<and>
   spec_finditer 0 ''an apple.'' = [(''an apple.'', 0, 9)] \<and>
   map c_snippet (collect_candidates [] (finditer 0 ''an apple.'')) = [''a'', ''apple.'']"
  by code_simp

text \<open>
  C6 at the page of the scenario: the three keywords are in the sentence, but the two
  matches of the report are the pieces of the sentence that the two letters \<open>n\<close> cut
  off, not the sentence.
\<close>

theorem contract_sentence_is_cut:
  "keyword_hits ''Total contract value: $250,000 split across milestones.'' ''total contract value'' = 3 \<and>
   map (\<lambda>e. (m_snippet e, m_page e, m_start e, m_end e))
     (r_matches (build_response_entry ''total contract value''
        [\<lparr>p_page = 1, p_text = ''Total contract value: $250,000 split across milestones.''\<rparr>])) =
   [(''Total co'', Some 1, Some 0, Some 8),
    (''tract value: $250,000 split across milesto'', Some 1, Some 9, Some 51)]"
  by code_simp

section \<open>The ratio lies between 0 and 1\<close>

text \<open>The number of matching characters of a list of blocks.\<close>

definition block_sum :: "(nat \<times> nat \<times> nat) list \<Rightarrow> nat" where
  "block_sum blocks = sum_list (map (\<lambda>(i, j, k). k) blocks)"

lemma block_sum_simps [simp]:
  "block_sum [] = 0"
  "block_sum ((i, j, k) # blocks) = k + block_sum blocks"
  "block_sum (xs @ ys) = block_sum xs + block_sum ys"
  by (simp_all add: block_sum_def)

lemma block_sum_merge_adjacent:
  "block_sum (merge_adjacent (i1, j1, k1) rest) = k1 + block_sum rest"
proof (induction rest arbitrary: i1 j1 k1)
  case Nil
  then show ?case by simp
next
  case (Cons x rest)
  obtain i2 j2 k2 where x: "x = (i2, j2, k2)" by (cases x) auto
  show ?case unfolding x by (simp add: Cons.IH)
qed

lemma block_sum_sort: "block_sum (sort blocks) = block_sum blocks"
proof -
  have "mset (map (\<lambda>(i, j, k). k) (sort blocks)) = mset (map (\<lambda>(i, j, k). k) blocks)"
    by simp
  then show ?thesis unfolding block_sum_def by (metis sum_mset_sum_list)
qed

text \<open>The most that a window of the queue can still contribute.\<close>

definition capacity :: "(nat \<times> nat \<times> nat \<times> nat) list \<Rightarrow> nat" where
  "capacity queue = sum_list (map (\<lambda>(alo, ahi, blo, bhi). min (ahi - alo) (bhi - blo)) queue)"

lemma capacity_simps [simp]:
  "capacity [] = 0"
  "capacity ((alo, ahi, blo, bhi) # queue) = min (ahi - alo) (bhi - blo) + capacity queue"
  "capacity (xs @ ys) = capacity xs + capacity ys"
  by (simp_all add: capacity_def)

lemma matching_loop_bound:
  "block_sum (matching_loop a b b2j queue matching_blocks) \<le> block_sum matching_blocks + capacity queue"
proof (induction a b b2j queue matching_blocks rule: matching_loop.induct)
  case (1 a b b2j matching_blocks)
  then show ?case by (simp add: matching_loop.simps)
next
  case (2 a b b2j alo ahi blo bhi queue matching_blocks)
  obtain i j k where f: "find_longest_match a b b2j alo ahi blo bhi = (i, j, k)"
    by (cases "find_longest_match a b b2j alo ahi blo bhi") auto
  show ?case
  proof (cases "k = 0")
    case True
    with 2(2)[OF f[symmetric] refl] f show ?thesis
      by (simp add: matching_loop.simps)
  next
    case False
    from find_longest_match_bounds[OF f False]
    have b: "alo \<le> i" "i + k \<le> ahi" "blo \<le> j" "j + k \<le> bhi" by auto
    define q where "q = (if i + k < ahi \<and> j + k < bhi then [(i + k, ahi, j + k, bhi)] else []) @
              (if alo < i \<and> blo < j then [(alo, i, blo, j)] else []) @ queue"
    have ih: "block_sum (matching_loop a b b2j q (matching_blocks @ [(i, j, k)]))
              \<le> block_sum (matching_blocks @ [(i, j, k)]) + capacity q"
      unfolding q_def using 2(1)[OF f[symmetric] refl False] .
    have bs: "block_sum (matching_blocks @ [(i, j, k)]) = block_sum matching_blocks + k"
      by simp
    have kc: "k + capacity q \<le> min (ahi - alo) (bhi - blo) + capacity queue"
      unfolding q_def using b by auto
    have le: "block_sum (matching_loop a b b2j q (matching_blocks @ [(i, j, k)]))
              \<le> block_sum matching_blocks + (min (ahi - alo) (bhi - blo) + capacity queue)"
      using ih kc unfolding bs by linarith
    have eq: "matching_loop a b b2j ((alo, ahi, blo, bhi) # queue) matching_blocks =
              matching_loop a b b2j q (matching_blocks @ [(i, j, k)])"
      unfolding q_def using f False by (simp add: matching_loop.simps)
    have cq: "capacity ((alo, ahi, blo, bhi) # queue) = min (ahi - alo) (bhi - blo) + capacity queue"
      by simp
    show ?thesis unfolding eq cq using le .
  qed
qed

lemma block_sum_get_matching_blocks:
  "block_sum (get_matching_blocks a b) =
   block_sum (matching_loop a b (chain_b b) [(0, length a, 0, length b)] [])"
  by (simp add: get_matching_blocks_def Let_def block_sum_merge_adjacent block_sum_sort)

lemma matches_le_min: "block_sum (get_matching_blocks a b) \<le> min (length a) (length b)"
  using matching_loop_bound[of a b "chain_b b" "[(0, length a, 0, length b)]" "[]"]
  by (simp add: block_sum_get_matching_blocks)

lemma ratio_eq: "ratio a b = calculate_ratio (block_sum (get_matching_blocks a b)) (length a + length b)"
  by (simp add: ratio_def block_sum_def)

lemma ratio_bounds: "0 \<le> ratio a b \<and> ratio a b \<le> 1"
proof -
  let ?m = "block_sum (get_matching_blocks a b)"
  have m: "2 * ?m \<le> length a + length b" using matches_le_min[of a b] by simp
  show ?thesis
  proof (cases "length a + length b = 0")
    case True
    then show ?thesis by (simp add: ratio_eq calculate_ratio_def)
  next
    case False
    then have "0 < length a + length b" by simp
    then have pos: "(0::rat) < of_nat (length a + length b)"
      by (simp only: of_nat_0_less_iff)
    have "(2 * of_nat ?m :: rat) = of_nat (2 * ?m)" by simp
    also have "\<dots> \<le> of_nat (length a + length b)" using m of_nat_le_iff by blast
    finally have "2 * of_nat ?m / of_nat (length a + length b) \<le> (1::rat)"
      using pos by (simp only: divide_le_eq_1_pos)
    moreover have "(0::rat) \<le> 2 * of_nat ?m / of_nat (length a + length b)" by simp
    ultimately show ?thesis using False by (simp only: ratio_eq calculate_ratio_def if_True simp_thms)
  qed
qed

section \<open>Bounds of the score\<close>

lemma keyword_hits_le: "keyword_hits sentence pointer \<le> length (findall_word (lower pointer))"
  by (simp add: keyword_hits_def)

lemma compute_similarity_nonneg: "0 \<le> compute_similarity sentence pointer"
  using ratio_bounds[of "lower sentence" "lower pointer"]
  by (simp add: compute_similarity_def)

lemma compute_similarity_le:
  "compute_similarity sentence pointer \<le> 1 + (1 / 10) * of_nat (length (findall_word (lower pointer)))"
proof -
  have "(of_nat (keyword_hits sentence pointer) :: rat) \<le> of_nat (length (findall_word (lower pointer)))"
    using keyword_hits_le of_nat_le_iff by blast
  then have "(1 / 10) * (of_nat (keyword_hits sentence pointer) :: rat)
             \<le> (1 / 10) * of_nat (length (findall_word (lower pointer)))"
    by simp
  moreover have "ratio (lower sentence) (lower pointer) \<le> 1"
    using ratio_bounds by blast
  ultimately show ?thesis unfolding compute_similarity_def by linarith
qed

text \<open>A pointer of \<open>n\<close> words \<open>a\<close>, and the sentence \<open>a\<close>: every word is a hit.\<close>

definition many_words :: "nat \<Rightarrow> string" where
  "many_words n = concat (replicate n ''a '')"

lemma word_char_a: "is_word_char (CHR ''a'')" "\<not> is_word_char (CHR '' '')"
  by (simp_all add: is_word_char_def)

lemma lower_char_a: "lower_char (CHR ''a'') = CHR ''a''" "lower_char (CHR '' '') = CHR '' ''"
  by (simp_all add: lower_char_def)

lemma lower_many_words: "lower (many_words n) = many_words n"
  by (induction n) (simp_all add: many_words_def lower_def lower_char_a)

lemma findall_word_many_words: "findall_word (many_words n) = replicate n ''a''"
  by (induction n) (simp_all add: many_words_def word_char_a)

lemma keyword_hits_many_words: "keyword_hits ''a'' (many_words n) = n"
proof -
  have "lower ''a'' = ''a''" by (simp add: lower_def lower_char_a)
  moreover have "filter (\<lambda>token. contains token ''a'') (replicate n ''a'') = replicate n ''a''"
    by (induction n) simp_all
  ultimately show ?thesis
    by (simp add: keyword_hits_def lower_many_words findall_word_many_words)
qed

lemma compute_similarity_unbounded: "\<exists>s p. B < compute_similarity s p"
proof -
  obtain n :: nat where n: "10 * B < of_nat n"
    using reals_Archimedean2 by blast
  have "(1 / 10) * (of_nat n :: rat) \<le> compute_similarity ''a'' (many_words n)"
    using ratio_bounds[of "lower ''a''" "lower (many_words n)"]
    by (simp add: compute_similarity_def keyword_hits_many_words)
  with n have "B < compute_similarity ''a'' (many_words n)" by linarith
  then show ?thesis by blast
qed

text \<open>
  C10. In exact arithmetic the score is at most \<open>1 + 0.1 \<times> T\<close>, where \<open>T\<close> is the number
  of word tokens of the lower-cased pointer: the ratio is at most 1 and the hits are at
  most \<open>T\<close>. Over all pointers the score has no bound.
\<close>

theorem score_bounded_by_tokens:
  "compute_similarity sentence pointer
     \<le> 1 + (1 / 10) * of_nat (length (findall_word (lower pointer))) \<and>
   ratio (lower sentence) (lower pointer) \<le> 1 \<and>
   keyword_hits sentence pointer \<le> length (findall_word (lower pointer)) \<and>
   (\<forall>B. \<exists>s p. B < compute_similarity s p)"
  using compute_similarity_le ratio_bounds keyword_hits_le compute_similarity_unbounded
  by blast

section \<open>Letter case and argument order\<close>

lemma lower_char_cases:
  "lower_char c =
     (if (65 \<le> (of_char c :: nat) \<and> (of_char c :: nat) \<le> 90) \<or>
         (192 \<le> (of_char c :: nat) \<and> (of_char c :: nat) \<le> 214) \<or>
         (216 \<le> (of_char c :: nat) \<and> (of_char c :: nat) \<le> 222)
      then char_of ((of_char c :: nat) + 32) else c)"
  by (simp add: lower_char_def Let_def)

lemma lower_char_idem: "lower_char (lower_char c) = lower_char c"
proof -
  define n where "n = (of_char c :: nat)"
  show ?thesis
  proof (cases "(65 \<le> n \<and> n \<le> 90) \<or> (192 \<le> n \<and> n \<le> 214) \<or> (216 \<le> n \<and> n \<le> 222)")
    case False
    then have "lower_char c = c" unfolding n_def by (subst lower_char_cases) auto
    then show ?thesis by simp
  next
    case True
    then have l: "lower_char c = char_of (n + 32)"
      unfolding n_def by (subst lower_char_cases) auto
    have "n + 32 < 256" using True by auto
    then have m: "(of_char (char_of (n + 32) :: char) :: nat) = n + 32"
      by simp
    have "lower_char (char_of (n + 32)) = char_of (n + 32)"
      using True by (subst lower_char_cases) (auto simp: m)
    then show ?thesis unfolding l .
  qed
qed

lemma lower_idem: "lower (lower s) = lower s"
  by (simp add: lower_def lower_char_idem)

lemma compute_similarity_lower:
  "compute_similarity (lower sentence) (lower pointer) = compute_similarity sentence pointer"
  by (simp add: compute_similarity_def keyword_hits_def lower_idem)

lemma compute_similarity_case:
  "lower s = lower s' \<Longrightarrow> lower p = lower p' \<Longrightarrow> compute_similarity s p = compute_similarity s' p'"
  by (simp add: compute_similarity_def keyword_hits_def)

lemma score_order_example:
  "compute_similarity ''a'' ''a a'' = 7 / 10 \<and> compute_similarity ''a a'' ''a'' = 6 / 10 \<and>
   ratio ''a'' ''a a'' = 1 / 2 \<and> ratio ''a a'' ''a'' = 1 / 2"
  by code_simp

text \<open>
  C7 as stated says that the ratio is symmetric in the order of its arguments. The
  matcher indexes its second sequence and walks the first, and of several longest
  blocks it keeps the one that starts earliest in the first sequence: \<open>tide\<close> against
  \<open>diet\<close> has the one block \<open>t\<close>, \<open>diet\<close> against \<open>tide\<close> has the blocks \<open>d\<close> and
  \<open>e\<close>.
\<close>

theorem ratio_order_counterexample:
  "ratio (lower ''tide'') (lower ''diet'') = 1 / 4 \<and>
   ratio (lower ''diet'') (lower ''tide'') = 1 / 2 \<and>
   ratio (lower ''tide'') (lower ''diet'') \<noteq> ratio (lower ''diet'') (lower ''tide'')"
  by code_simp

lemma ratio_tide_diet: "ratio ''tide'' ''diet'' \<noteq> ratio ''diet'' ''tide''"
  by code_simp

text \<open>
  C7, as amended. The score does not change when the letter case of either argument
  changes; it is not symmetric in the order of its arguments, and neither is its ratio
  component.
\<close>

theorem score_case_and_order:
  "(lower s = lower s' \<and> lower p = lower p' \<longrightarrow> compute_similarity s p = compute_similarity s' p') \<and>
   compute_similarity (lower s) (lower p) = compute_similarity s p \<and>
   (\<exists>sentence pointer. compute_similarity sentence pointer \<noteq> compute_similarity pointer sentence) \<and>
   (\<exists>a b :: string. ratio a b \<noteq> ratio b a)"
proof -
  have "compute_similarity ''a'' ''a a'' \<noteq> compute_similarity ''a a'' ''a''"
    using score_order_example by simp
  then have "\<exists>sentence pointer. compute_similarity sentence pointer \<noteq> compute_similarity pointer sentence"
    by blast
  moreover have "\<exists>a b :: string. ratio a b \<noteq> ratio b a"
    using ratio_tide_diet by blast
  ultimately show ?thesis
    using compute_similarity_case compute_similarity_lower by blast
qed

theorem score_case_and_order_witness:
  "lower ''Tide In'' = lower ''tIDE iN'' \<and> lower ''IN'' = lower ''in'' \<and>
   compute_similarity ''Tide In'' ''IN'' = compute_similarity ''tIDE iN'' ''in''"
proof -
  have 1: "lower ''Tide In'' = lower ''tIDE iN''" by code_simp
  have 2: "lower ''IN'' = lower ''in''" by code_simp
  from score_case_and_order[of "''Tide In''" "''tIDE iN''" "''IN''" "''in''"] 1 2
  have "compute_similarity ''Tide In'' ''IN'' = compute_similarity ''tIDE iN'' ''in''" by blast
  with 1 2 show ?thesis by blast
qed

(*NEXT*)

end
